theory Spec2Isabelle
  imports Main "HOL-Library.Sublist"
begin

section \<open>JavaScript strings\<close>

text \<open>
  A string is a list of code units. The model covers the texts whose code units are below
  256 (one \<open>char\<close> per code unit); the markers the components look for are all ASCII.
  In that range the white space that \<open>String.prototype.trim\<close> strips and that the
  regular-expression class \<open>\s\<close> accepts is TAB, LF, VT, FF, CR, SPACE and NBSP, and
  the line terminators that \<open>.\<close> refuses are LF and CR.
\<close>

definition is_ws :: "char \<Rightarrow> bool" where
  "is_ws c = (c = CHR 0x09 \<or> c = CHR 0x0A \<or> c = CHR 0x0B \<or> c = CHR 0x0C \<or> c = CHR 0x0D
              \<or> c = CHR 0x20 \<or> c = CHR 0xA0)"

definition is_line_terminator :: "char \<Rightarrow> bool" where
  "is_line_terminator c = (c = CHR 0x0A \<or> c = CHR 0x0D)"

definition is_price_char :: "char \<Rightarrow> bool" where
  \<comment> \<open>the class \<open>[\d.]\<close>\<close>
  "is_price_char c = (c \<in> set ''0123456789.'')"

definition trim :: "string \<Rightarrow> string" where
  \<comment> \<open>\<open>s.trim()\<close>\<close>
  "trim s = rev (dropWhile is_ws (rev (dropWhile is_ws s)))"

fun includes_str :: "string \<Rightarrow> string \<Rightarrow> bool" where
  \<comment> \<open>\<open>s.includes(sub)\<close>\<close>
  "includes_str [] sub = (sub = [])"
| "includes_str (c # cs) sub = (prefix sub (c # cs) \<or> includes_str cs sub)"

fun split :: "char \<Rightarrow> string \<Rightarrow> string list" where
  \<comment> \<open>\<open>s.split(sep)\<close> for a separator of one code unit; the result is never empty\<close>
  "split sep [] = [[]]"
| "split sep (c # cs) =
     (if c = sep then [] # split sep cs
      else (case split sep cs of [] \<Rightarrow> [[c]] | l # ls \<Rightarrow> (c # l) # ls))"

fun replace :: "string \<Rightarrow> string \<Rightarrow> string \<Rightarrow> string" where
  \<comment> \<open>\<open>s.replace(pat, rep)\<close> with a string pattern: only the first occurrence is
      replaced (\<open>rep\<close> without \<open>$\<close> patterns; the components pass the empty string)\<close>
  "replace [] pat rep = (if pat = [] then rep else [])"
| "replace (c # cs) pat rep =
     (if prefix pat (c # cs) then rep @ drop (length pat) (c # cs)
      else c # replace cs pat rep)"

definition nth_opt :: "'a list \<Rightarrow> nat \<Rightarrow> 'a option" where
  \<comment> \<open>\<open>xs[i]\<close>, \<open>undefined\<close> out of range\<close>
  "nth_opt xs i = (if i < length xs then Some (xs ! i) else None)"

section \<open>The two regular expressions\<close>

text \<open>
  \<open>/\$[\d.]+/\<close> in \<open>String.prototype.match\<close>: the leftmost position where a dollar
  sign is followed by at least one digit or dot; the match takes all of them (greedy).
\<close>

fun match_price :: "string \<Rightarrow> string option" where
  "match_price [] = None"
| "match_price (c # cs) =
     (if c = CHR ''$'' \<and> takeWhile is_price_char cs \<noteq> []
      then Some (c # takeWhile is_price_char cs)
      else match_price cs)"

text \<open>
  \<open>/^(.+?)\s+\(([^)]+)\)\s*$/\<close>. \<open>tail_match\<close> is the part after the first group,
  \<open>\s+\(([^)]+)\)\s*$\<close>, matched at the start of its argument; it returns the second
  group. The greedy \<open>\s+\<close> is followed by a literal parenthesis, which is not white space,
  and the greedy \<open>[^)]+\<close> by a literal closing parenthesis, so neither can succeed after
  giving characters back: each takes its whole run.
\<close>

definition tail_match :: "string \<Rightarrow> string option" where
  "tail_match s =
     (if takeWhile is_ws s = [] then None
      else (case dropWhile is_ws s of
              [] \<Rightarrow> None
            | c # r \<Rightarrow>
                if c \<noteq> CHR ''('' then None
                else if takeWhile (\<lambda>x. x \<noteq> CHR '')'') r = [] then None
                else (case dropWhile (\<lambda>x. x \<noteq> CHR '')'') r of
                        [] \<Rightarrow> None
                      | d # t \<Rightarrow> if list_all is_ws t
                                 then Some (takeWhile (\<lambda>x. x \<noteq> CHR '')'') r)
                                 else None)))"

text \<open>
  The lazy first group \<open>(.+?)\<close> takes one character that is not a line terminator, tries
  the rest of the pattern, and takes one more character each time the rest fails.
\<close>

fun lazy_group :: "string \<Rightarrow> string \<Rightarrow> (string \<times> string) option" where
  "lazy_group g [] = None"
| "lazy_group g (c # cs) =
     (if is_line_terminator c then None
      else (case tail_match cs of
              Some g2 \<Rightarrow> Some (g @ [c], g2)
            | None \<Rightarrow> lazy_group (g @ [c]) cs))"

definition partMatch :: "string \<Rightarrow> (string \<times> string) option" where
  \<comment> \<open>\<open>line.match(/^(.+?)\s+\(([^)]+)\)\s*$/)\<close>: the two captured groups\<close>
  "partMatch line = lazy_group [] line"

section \<open>PartList: the line scanner\<close>

record part =
  name :: string
  partNumber :: string
  details :: "string list"

record scan =
  parts :: "part list"
  currentPart :: "part option"
  introText :: string
  isIntro :: bool

definition next_has_dollar :: "string list \<Rightarrow> bool" where
  \<comment> \<open>\<open>i + 1 < lines.length && lines[i + 1].includes('$')\<close>, on the lines after line i\<close>
  "next_has_dollar rest = (case rest of [] \<Rightarrow> False | n # _ \<Rightarrow> includes_str n ''$'')"

definition keeps :: "string \<Rightarrow> bool" where
  "keeps line = (includes_str line ''$'' \<or> includes_str line ''Product Page:''
                 \<or> includes_str line ''Installation:'' \<or> includes_str line ''https://'')"

definition other_line :: "string \<Rightarrow> scan \<Rightarrow> scan" where
  \<comment> \<open>the loop body below the title test\<close>
  "other_line line st =
     (case currentPart st of
        Some p \<Rightarrow> if keeps line
                  then st\<lparr>currentPart := Some (p\<lparr>details := details p @ [line]\<rparr>)\<rparr>
                  else st
      | None \<Rightarrow> if isIntro st then st\<lparr>introText := introText st @ line @ ''\<newline>''\<rparr>
                else st)"

definition open_part :: "string \<Rightarrow> string \<Rightarrow> scan \<Rightarrow> scan" where
  \<comment> \<open>the branch taken on a part title\<close>
  "open_part g1 g2 st =
     st\<lparr>isIntro := False,
        parts := (case currentPart st of Some p \<Rightarrow> parts st @ [p] | None \<Rightarrow> parts st),
        currentPart := Some \<lparr>name = trim g1, partNumber = trim g2, details = []\<rparr>\<rparr>"

datatype line_class = Blank | Title string string | Other string

definition classify :: "string \<Rightarrow> string list \<Rightarrow> line_class" where
  \<comment> \<open>the tests of one iteration, in the order of the source: \<open>raw\<close> is \<open>lines[i]\<close>,
      \<open>rest\<close> the lines after it; a title carries the two captured groups\<close>
  "classify raw rest =
     (let line = trim raw in
      if line = [] then Blank
      else (case partMatch line of
              Some (g1, g2) \<Rightarrow> if next_has_dollar rest then Title g1 g2 else Other line
            | None \<Rightarrow> Other line))"

definition loop_body :: "string \<Rightarrow> string list \<Rightarrow> scan \<Rightarrow> scan" where
  \<comment> \<open>one iteration of the loop: what each kind of line does to the scanner's variables\<close>
  "loop_body raw rest st =
     (case classify raw rest of
        Blank \<Rightarrow> st
      | Title g1 g2 \<Rightarrow> open_part g1 g2 st
      | Other line \<Rightarrow> other_line line st)"

fun loop :: "string list \<Rightarrow> scan \<Rightarrow> scan" where
  "loop [] st = st"
| "loop (raw # rest) st = loop rest (loop_body raw rest st)"

definition flush :: "scan \<Rightarrow> scan" where
  \<comment> \<open>\<open>if (currentPart) parts.push(currentPart)\<close> after the loop\<close>
  "flush st = (case currentPart st of Some p \<Rightarrow> st\<lparr>parts := parts st @ [p]\<rparr> | None \<Rightarrow> st)"

definition scan0 :: scan where
  "scan0 = \<lparr>parts = [], currentPart = None, introText = [], isIntro = True\<rparr>"

definition lines_of :: "string \<Rightarrow> string list" where
  \<comment> \<open>\<open>content.split('\n')\<close>\<close>
  "lines_of content = split CHR ''\<newline>'' content"

definition parse :: "string \<Rightarrow> scan" where
  \<comment> \<open>PartList up to its return statement\<close>
  "parse content = flush (loop (lines_of content) scan0)"

datatype listing = Cards "part list" | Fallback string

record partlist_view =
  intro :: "string option"
  body :: listing

definition PartList :: "string \<Rightarrow> partlist_view" where
  \<comment> \<open>what PartList returns: the intro paragraph when \<open>introText\<close> is not empty, then one
      card per part, or the raw content when no part was found\<close>
  "PartList content =
     (let st = parse content in
      \<lparr>intro = (if introText st = [] then None else Some (trim (introText st))),
       body = (if parts st \<noteq> [] then Cards (parts st) else Fallback content)\<rparr>)"

subsection \<open>What the scanner is measured against\<close>

text \<open>
  The title pattern as a set of strings: a name of one or more characters, none of them a
  line terminator, then white space, an opening parenthesis, an identifier of one or more
  characters other than the closing parenthesis, the closing parenthesis, and nothing
  after it but white space.
\<close>

definition matches_pattern :: "string \<Rightarrow> bool" where
  "matches_pattern l =
     (\<exists>n ws ident ws'.
        l = n @ ws @ ''('' @ ident @ '')'' @ ws' \<and>
        n \<noteq> [] \<and> (\<forall>c\<in>set n. \<not> is_line_terminator c) \<and>
        ws \<noteq> [] \<and> list_all is_ws ws \<and>
        ident \<noteq> [] \<and> CHR '')'' \<notin> set ident \<and>
        list_all is_ws ws')"

definition pair_at :: "string list \<Rightarrow> nat \<Rightarrow> bool" where
  \<comment> \<open>a title and its dollar line in adjacent lines: line i matches the pattern and
      line i + 1, taken as it is, contains a dollar sign\<close>
  "pair_at ls i =
     (Suc i < length ls \<and> matches_pattern (trim (ls ! i)) \<and> CHR ''$'' \<in> set (ls ! Suc i))"

definition captured :: "string \<Rightarrow> (string \<times> string) option" where
  \<comment> \<open>the two captured groups of a line, trimmed as the scanner stores them\<close>
  "captured raw = map_option (\<lambda>(g1, g2). (trim g1, trim g2)) (partMatch (trim raw))"

text \<open>
  The reading of the specification in which blank lines between a title and its dollar
  line are passed over: the first line after the title that is not blank contains a
  dollar sign.
\<close>

definition spec_dollar_follows :: "string list \<Rightarrow> bool" where
  "spec_dollar_follows rest =
     (case filter (\<lambda>l. trim l \<noteq> []) rest of [] \<Rightarrow> False | n # _ \<Rightarrow> CHR ''$'' \<in> set n)"

definition spec_title :: "string \<Rightarrow> string list \<Rightarrow> bool" where
  "spec_title raw rest = (matches_pattern (trim raw) \<and> spec_dollar_follows rest)"

definition spec_pair_at :: "string list \<Rightarrow> nat \<Rightarrow> bool" where
  \<comment> \<open>a title and its dollar line in that reading: line i is a title line of the
      specification\<close>
  "spec_pair_at ls i = (i < length ls \<and> spec_title (ls ! i) (drop (Suc i) ls))"

text \<open>The entities the scanner holds at a moment, and the titles of a list of lines.\<close>

definition entities :: "scan \<Rightarrow> part list" where
  "entities st = parts st @ (case currentPart st of None \<Rightarrow> [] | Some p \<Rightarrow> [p])"

fun titles :: "string list \<Rightarrow> (string \<times> string) list" where
  "titles [] = []"
| "titles (raw # rest) =
     (case classify raw rest of
        Title g1 g2 \<Rightarrow> (trim g1, trim g2) # titles rest
      | _ \<Rightarrow> titles rest)"

section \<open>PartCard: the derived fields\<close>

definition price :: "part \<Rightarrow> string option" where
  "price p = (case find (\<lambda>d. includes_str d ''$'') (details p) of
                None \<Rightarrow> None
              | Some d \<Rightarrow> match_price d)"

definition brandMatch :: "part \<Rightarrow> string list option" where
  "brandMatch p = map_option (split CHR ''|'') (find (\<lambda>d. includes_str d ''|'') (details p))"

definition brand :: "part \<Rightarrow> string option" where
  "brand p = (case brandMatch p of None \<Rightarrow> None | Some b \<Rightarrow> map_option trim (nth_opt b 1))"

definition availability :: "part \<Rightarrow> string option" where
  "availability p =
     (case brandMatch p of None \<Rightarrow> None | Some b \<Rightarrow> map_option trim (nth_opt b 2))"

definition productUrl :: "part \<Rightarrow> string option" where
  "productUrl p =
     map_option (\<lambda>d. trim (replace d ''Product Page:'' []))
       (find (\<lambda>d. includes_str d ''Product Page:'') (details p))"

definition videoUrl :: "part \<Rightarrow> string option" where
  "videoUrl p =
     map_option (\<lambda>d. trim (replace d ''Installation Video:'' []))
       (find (\<lambda>d. includes_str d ''Installation Video:'') (details p))"

definition hasVideo :: "part \<Rightarrow> bool" where
  \<comment> \<open>the truthiness of \<open>videoUrl && !videoUrl.includes('[Not Available]')\<close>: an absent
      and an empty URL are both falsy\<close>
  "hasVideo p =
     (case videoUrl p of
        None \<Rightarrow> False
      | Some u \<Rightarrow> u \<noteq> [] \<and> \<not> includes_str u ''[Not Available]'')"

text \<open>
  The specification's product URL: the first detail line that begins with
  \<open>Product Page:\<close>, without that prefix, trimmed.
\<close>

definition spec_productUrl :: "part \<Rightarrow> string option" where
  "spec_productUrl p =
     map_option (\<lambda>d. trim (drop (length ''Product Page:'') d))
       (find (prefix ''Product Page:'') (details p))"

section \<open>MessageBubble: content gating\<close>

datatype role = User | Assistant

record ChatMessage =
  role :: role
  content :: string
  timestamp :: nat
  validationScore :: "nat option"

datatype bubble = Prose string | Parsed partlist_view

definition hasPartInfo :: "ChatMessage \<Rightarrow> bool" where
  "hasPartInfo m =
     (role m \<noteq> User \<and>
      (includes_str (content m) ''$'' \<or> includes_str (content m) ''Product Page:''
       \<or> includes_str (content m) ''partselect.com''))"

definition MessageBubble :: "ChatMessage \<Rightarrow> bubble" where
  \<comment> \<open>the body of the bubble: PartList is rendered (and its parser run) only in the
      first branch\<close>
  "MessageBubble m =
     (if hasPartInfo m then Parsed (PartList (content m)) else Prose (content m))"

section \<open>ChatInterface: the conversation state\<close>











subsection \<open>handleSend\<close>










subsection \<open>resetChat\<close>




subsection \<open>The component over time\<close>








subsection \<open>Sample states\<close>









section \<open>The end-to-end scenario\<close>

text \<open>
  C5. The text of the scenario parses to exactly one part, named Door Bin with number
  PS123; PartCard derives the price $45.00, the brand Whirlpool, the availability
  In Stock and the product URL https://x from it, finds no video URL, and has-video is
  false.
\<close>

theorem door_bin_scenario:
  "map (\<lambda>p. (name p, partNumber p, price p, brand p, availability p, productUrl p,
             videoUrl p, hasVideo p))
     (parts (parse ''Door Bin (PS123)\<newline>$45.00 | Whirlpool | In Stock\<newline>Product Page: https://x\<newline>Installation Video: [Not Available]''))
   = [(''Door Bin'', ''PS123'', Some ''$45.00'', Some ''Whirlpool'', Some ''In Stock'',
       Some ''https://x'', None, False)]"
  by code_simp

section \<open>Content gating\<close>

text \<open>
  C7. A message whose text contains no dollar sign, no \<open>Product Page:\<close> and no
  \<open>partselect.com\<close> is rendered as its text, unchanged, in the branch that does not
  render PartList; whether a line of it matches the title pattern plays no part.
\<close>

theorem plain_text_gating:
  assumes "\<not> includes_str (content m) ''$''"
    and "\<not> includes_str (content m) ''Product Page:''"
    and "\<not> includes_str (content m) ''partselect.com''"
  shows "MessageBubble m = Prose (content m)"
  using assms by (simp add: MessageBubble_def hasPartInfo_def)

theorem plain_text_gating_witness:
  "\<not> includes_str ''Door Bin (PS123)'' ''$'' \<and>
   \<not> includes_str ''Door Bin (PS123)'' ''Product Page:'' \<and>
   \<not> includes_str ''Door Bin (PS123)'' ''partselect.com'' \<and>
   partMatch ''Door Bin (PS123)'' = Some (''Door Bin'', ''PS123'') \<and>
   MessageBubble \<lparr>role = Assistant, content = ''Door Bin (PS123)'', timestamp = 0,
                  validationScore = None\<rparr> = Prose ''Door Bin (PS123)''"
proof -
  have a: "\<not> includes_str ''Door Bin (PS123)'' ''$''" by code_simp
  have b: "\<not> includes_str ''Door Bin (PS123)'' ''Product Page:''" by code_simp
  have c: "\<not> includes_str ''Door Bin (PS123)'' ''partselect.com''" by code_simp
  have d: "partMatch ''Door Bin (PS123)'' = Some (''Door Bin'', ''PS123'')" by code_simp
  show ?thesis
    using plain_text_gating [of "\<lparr>role = Assistant, content = ''Door Bin (PS123)'',
                                  timestamp = 0, validationScore = None\<rparr>"] a b c d
    by simp
qed

section \<open>Sending\<close>


























section \<open>Resetting\<close>




section \<open>The title pattern\<close>

lemma includes_iff: "includes_str s sub \<longleftrightarrow> (\<exists>a b. s = a @ sub @ b)"
proof (induction s)
  case Nil
  show ?case by auto
next
  case (Cons c cs)
  show ?case
  proof
    assume "includes_str (c # cs) sub"
    then consider "prefix sub (c # cs)" | "includes_str cs sub" by auto
    then show "\<exists>a b. c # cs = a @ sub @ b"
    proof cases
      case 1
      then obtain b where "c # cs = sub @ b" by (auto simp: prefix_def)
      then have "c # cs = [] @ sub @ b" by simp
      then show ?thesis by blast
    next
      case 2
      then obtain a b where "cs = a @ sub @ b" using Cons.IH by blast
      then have "c # cs = (c # a) @ sub @ b" by simp
      then show ?thesis by blast
    qed
  next
    assume "\<exists>a b. c # cs = a @ sub @ b"
    then obtain a b where ab: "c # cs = a @ sub @ b" by blast
    show "includes_str (c # cs) sub"
    proof (cases a)
      case Nil
      then have "prefix sub (c # cs)" using ab by (simp add: prefix_def)
      then show ?thesis by simp
    next
      case (Cons x a')
      then have "cs = a' @ sub @ b" using ab by simp
      then have "includes_str cs sub" using Cons.IH by blast
      then show ?thesis by simp
    qed
  qed
qed

lemma includes_dollar: "includes_str s ''$'' \<longleftrightarrow> CHR ''$'' \<in> set s"
  by (induction s) auto

lemma not_ws_paren: "\<not> is_ws CHR ''(''"
  by (simp add: is_ws_def)

lemma tail_match_iff:
  "tail_match s = Some g2 \<longleftrightarrow>
     (\<exists>ws ws'. s = ws @ ''('' @ g2 @ '')'' @ ws' \<and> ws \<noteq> [] \<and> list_all is_ws ws \<and>
        g2 \<noteq> [] \<and> CHR '')'' \<notin> set g2 \<and> list_all is_ws ws')"
proof
  assume h: "tail_match s = Some g2"
  let ?ws = "takeWhile is_ws s"
  from h have ws: "?ws \<noteq> []" by (auto simp: tail_match_def split: if_splits)
  from h obtain c r where d1: "dropWhile is_ws s = c # r"
    by (auto simp: tail_match_def split: if_splits list.splits)
  from h d1 have c: "c = CHR ''(''" using ws by (auto simp: tail_match_def split: if_splits)
  let ?g = "takeWhile (\<lambda>x. x \<noteq> CHR '')'') r"
  from h d1 c ws have g: "?g \<noteq> []" by (auto simp: tail_match_def split: if_splits)
  from h d1 c ws g obtain d t where d2: "dropWhile (\<lambda>x. x \<noteq> CHR '')'') r = d # t"
    by (auto simp: tail_match_def split: if_splits list.splits)
  from h d1 c ws g d2 have t: "list_all is_ws t" and g2: "g2 = ?g"
    by (auto simp: tail_match_def split: if_splits)
  have d: "d = CHR '')''" using hd_dropWhile [of "\<lambda>x. x \<noteq> CHR '')''" r] d2 by simp
  have "s = ?ws @ dropWhile is_ws s" by simp
  also have "dropWhile is_ws s = CHR ''('' # r" using d1 c by simp
  also have "r = ?g @ dropWhile (\<lambda>x. x \<noteq> CHR '')'') r" by simp
  finally have "s = ?ws @ ''('' @ g2 @ '')'' @ t" using d2 d g2 by simp
  moreover have "list_all is_ws ?ws" by (auto simp: list_all_iff dest: set_takeWhileD)
  moreover have "CHR '')'' \<notin> set g2" using g2 by (auto dest: set_takeWhileD)
  ultimately show "\<exists>ws ws'. s = ws @ ''('' @ g2 @ '')'' @ ws' \<and> ws \<noteq> [] \<and> list_all is_ws ws \<and>
        g2 \<noteq> [] \<and> CHR '')'' \<notin> set g2 \<and> list_all is_ws ws'"
    using ws g g2 t by blast
next
  assume "\<exists>ws ws'. s = ws @ ''('' @ g2 @ '')'' @ ws' \<and> ws \<noteq> [] \<and> list_all is_ws ws \<and>
        g2 \<noteq> [] \<and> CHR '')'' \<notin> set g2 \<and> list_all is_ws ws'"
  then obtain ws ws' where s: "s = ws @ CHR ''('' # g2 @ CHR '')'' # ws'"
    and ws: "ws \<noteq> []" "list_all is_ws ws" and g2: "g2 \<noteq> []" "CHR '')'' \<notin> set g2"
    and ws': "list_all is_ws ws'" by auto
  have t1: "takeWhile is_ws s = ws"
    using s ws not_ws_paren by (simp add: list_all_iff)
  have d1: "dropWhile is_ws s = CHR ''('' # g2 @ CHR '')'' # ws'"
    using s ws not_ws_paren by (simp add: list_all_iff)
  have t2: "takeWhile (\<lambda>x. x \<noteq> CHR '')'') (g2 @ CHR '')'' # ws') = g2"
    using g2 by (subst takeWhile_append2) auto
  have d2: "dropWhile (\<lambda>x. x \<noteq> CHR '')'') (g2 @ CHR '')'' # ws') = CHR '')'' # ws'"
    using g2 by (subst dropWhile_append2) auto
  show "tail_match s = Some g2"
    unfolding tail_match_def t1 d1 using ws g2 ws' by (simp add: t2 d2)
qed

lemma lazy_group_Some:
  "lazy_group g l = Some (g1, g2) \<Longrightarrow>
     \<exists>n rest. g1 = g @ n \<and> l = n @ rest \<and> n \<noteq> [] \<and> (\<forall>c\<in>set n. \<not> is_line_terminator c)
        \<and> tail_match rest = Some g2"
proof (induction l arbitrary: g)
  case Nil
  then show ?case by simp
next
  case (Cons c cs)
  from Cons.prems have nlt: "\<not> is_line_terminator c" by (auto split: if_splits)
  show ?case
  proof (cases "tail_match cs")
    case (Some h)
    with Cons.prems nlt have "g1 = g @ [c]" "h = g2" by auto
    with Some nlt have "g1 = g @ [c] \<and> c # cs = [c] @ cs \<and> [c] \<noteq> [] \<and>
       (\<forall>x\<in>set [c]. \<not> is_line_terminator x) \<and> tail_match cs = Some g2" by simp
    then show ?thesis by blast
  next
    case None
    with Cons.prems nlt have "lazy_group (g @ [c]) cs = Some (g1, g2)" by simp
    from Cons.IH [OF this] obtain n rest where
      n: "g1 = (g @ [c]) @ n" "cs = n @ rest" "n \<noteq> []" "\<forall>x\<in>set n. \<not> is_line_terminator x"
        "tail_match rest = Some g2" by blast
    then have "g1 = g @ (c # n) \<and> c # cs = (c # n) @ rest \<and> c # n \<noteq> [] \<and>
       (\<forall>x\<in>set (c # n). \<not> is_line_terminator x) \<and> tail_match rest = Some g2"
      using nlt by simp
    then show ?thesis by blast
  qed
qed

lemma lazy_group_None:
  "lazy_group g l = None \<Longrightarrow> l = n @ rest \<Longrightarrow> n \<noteq> [] \<Longrightarrow>
     \<forall>c\<in>set n. \<not> is_line_terminator c \<Longrightarrow> tail_match rest = None"
proof (induction l arbitrary: g n)
  case Nil
  then show ?case by simp
next
  case (Cons c cs)
  from Cons.prems obtain n' where n: "n = c # n'" "cs = n' @ rest"
    by (cases n) auto
  with Cons.prems have nlt: "\<not> is_line_terminator c" by simp
  with Cons.prems(1) have tm: "tail_match cs = None" and lg: "lazy_group (g @ [c]) cs = None"
    by (auto split: option.splits)
  show ?case
  proof (cases n')
    case Nil
    with n tm show ?thesis by simp
  next
    case (Cons x xs)
    with Cons.prems n have "\<forall>c\<in>set n'. \<not> is_line_terminator c" "n' \<noteq> []" by auto
    with Cons.IH [OF lg n(2)] show ?thesis by blast
  qed
qed

lemma partMatch_iff: "partMatch l \<noteq> None \<longleftrightarrow> matches_pattern l"
proof
  assume "partMatch l \<noteq> None"
  then obtain g1 g2 where "lazy_group [] l = Some (g1, g2)" by (auto simp: partMatch_def)
  from lazy_group_Some [OF this] obtain n rest where
    n: "l = n @ rest" "n \<noteq> []" "\<forall>c\<in>set n. \<not> is_line_terminator c" "tail_match rest = Some g2"
    by auto
  from n(4) obtain ws ws' where "rest = ws @ ''('' @ g2 @ '')'' @ ws'" "ws \<noteq> []"
    "list_all is_ws ws" "g2 \<noteq> []" "CHR '')'' \<notin> set g2" "list_all is_ws ws'"
    unfolding tail_match_iff by blast
  with n show "matches_pattern l" unfolding matches_pattern_def by blast
next
  assume "matches_pattern l"
  then obtain n ws ident ws' where l: "l = n @ ws @ ''('' @ ident @ '')'' @ ws'"
    and n: "n \<noteq> []" "\<forall>c\<in>set n. \<not> is_line_terminator c"
    and r: "ws \<noteq> []" "list_all is_ws ws" "ident \<noteq> []" "CHR '')'' \<notin> set ident"
      "list_all is_ws ws'"
    unfolding matches_pattern_def by blast
  from r have tm: "tail_match (ws @ ''('' @ ident @ '')'' @ ws') = Some ident"
    unfolding tail_match_iff by blast
  show "partMatch l \<noteq> None"
  proof
    assume "partMatch l = None"
    then have "lazy_group [] l = None" by (simp add: partMatch_def)
    from lazy_group_None [OF this l n] tm show False by simp
  qed
qed

lemma lazy_group_shortest:
  "lazy_group g l = Some (g1, g2) \<Longrightarrow>
     \<exists>n rest. g1 = g @ n \<and> l = n @ rest \<and> tail_match rest = Some g2 \<and>
       (\<forall>m r. l = m @ r \<and> m \<noteq> [] \<and> length m < length n \<longrightarrow> tail_match r = None)"
proof (induction l arbitrary: g)
  case Nil
  then show ?case by simp
next
  case (Cons c cs)
  from Cons.prems have nlt: "\<not> is_line_terminator c" by (auto split: if_splits)
  show ?case
  proof (cases "tail_match cs")
    case (Some h)
    with Cons.prems nlt have "g1 = g @ [c]" "h = g2" by auto
    with Some have "g1 = g @ [c] \<and> c # cs = [c] @ cs \<and> tail_match cs = Some g2 \<and>
       (\<forall>m r. c # cs = m @ r \<and> m \<noteq> [] \<and> length m < length [c] \<longrightarrow> tail_match r = None)"
      by simp
    then show ?thesis by blast
  next
    case None
    with Cons.prems nlt have "lazy_group (g @ [c]) cs = Some (g1, g2)" by simp
    from Cons.IH [OF this] obtain n rest where
      n: "g1 = (g @ [c]) @ n" "cs = n @ rest" "tail_match rest = Some g2"
      and least: "\<forall>m r. cs = m @ r \<and> m \<noteq> [] \<and> length m < length n \<longrightarrow> tail_match r = None"
      by blast
    have "tail_match r = None"
      if m: "c # cs = m @ r" "m \<noteq> []" "length m < length (c # n)" for m r
    proof -
      from m(1,2) obtain m' where m': "m = c # m'" "cs = m' @ r" by (cases m) auto
      show ?thesis
      proof (cases m')
        case Nil
        with m' None show ?thesis by simp
      next
        case (Cons x xs)
        with m' m(3) have "cs = m' @ r \<and> m' \<noteq> [] \<and> length m' < length n" by simp
        with least show ?thesis by blast
      qed
    qed
    with n have "g1 = g @ (c # n) \<and> c # cs = (c # n) @ rest \<and> tail_match rest = Some g2 \<and>
       (\<forall>m r. c # cs = m @ r \<and> m \<noteq> [] \<and> length m < length (c # n) \<longrightarrow> tail_match r = None)"
      by simp
    then show ?thesis by blast
  qed
qed

text \<open>
  What partMatch returns is the match of the regular expression: the first group is the
  shortest prefix after which the rest of the pattern matches, as the lazy quantifier
  asks, and the second group is the one the rest of the pattern captures there.
\<close>

lemma partMatch_shortest:
  assumes "partMatch l = Some (g1, g2)"
  shows "\<exists>rest. l = g1 @ rest \<and> g1 \<noteq> [] \<and> (\<forall>c\<in>set g1. \<not> is_line_terminator c)
           \<and> tail_match rest = Some g2
           \<and> (\<forall>m r. l = m @ r \<and> m \<noteq> [] \<and> length m < length g1 \<longrightarrow> tail_match r = None)"
proof -
  from assms have lg: "lazy_group [] l = Some (g1, g2)" by (simp add: partMatch_def)
  from lazy_group_Some [OF lg] obtain n rest where
    a: "g1 = n" "l = n @ rest" "n \<noteq> []" "\<forall>c\<in>set n. \<not> is_line_terminator c"
      "tail_match rest = Some g2" by auto
  from lazy_group_shortest [OF lg] obtain n' rest' where
    b: "g1 = n'" "l = n' @ rest'"
      "\<forall>m r. l = m @ r \<and> m \<noteq> [] \<and> length m < length n' \<longrightarrow> tail_match r = None" by auto
  from a b show ?thesis by blast
qed

lemma matches_pattern_nonempty: "matches_pattern l \<Longrightarrow> l \<noteq> []"
  by (auto simp: matches_pattern_def)

lemma classify_Title_iff:
  "(\<exists>g1 g2. classify raw rest = Title g1 g2) \<longleftrightarrow>
     matches_pattern (trim raw) \<and> next_has_dollar rest"
proof
  assume "\<exists>g1 g2. classify raw rest = Title g1 g2"
  then obtain g1 g2 where t: "classify raw rest = Title g1 g2" by blast
  then have "partMatch (trim raw) \<noteq> None" and "next_has_dollar rest"
    by (auto simp: classify_def Let_def split: if_splits option.splits)
  then show "matches_pattern (trim raw) \<and> next_has_dollar rest"
    using partMatch_iff [of "trim raw"] by blast
next
  assume a: "matches_pattern (trim raw) \<and> next_has_dollar rest"
  then have "trim raw \<noteq> []" by (simp add: matches_pattern_nonempty)
  moreover from a obtain g1 g2 where "partMatch (trim raw) = Some (g1, g2)"
    using partMatch_iff [of "trim raw"] by auto
  ultimately have "classify raw rest = Title g1 g2"
    using a by (simp add: classify_def)
  then show "\<exists>g1 g2. classify raw rest = Title g1 g2" by blast
qed

lemma classify_Title_captured:
  "classify raw rest = Title g1 g2 \<Longrightarrow> captured raw = Some (trim g1, trim g2)"
  by (auto simp: classify_def captured_def Let_def split: if_splits option.splits)

lemma next_has_dollar_drop:
  "next_has_dollar (drop (Suc i) ls) \<longleftrightarrow> Suc i < length ls \<and> CHR ''$'' \<in> set (ls ! Suc i)"
proof (cases "Suc i < length ls")
  case True
  then have "drop (Suc i) ls = ls ! Suc i # drop (Suc (Suc i)) ls"
    by (simp add: Cons_nth_drop_Suc)
  with True show ?thesis by (simp add: next_has_dollar_def includes_dollar)
next
  case False
  then show ?thesis by (simp add: next_has_dollar_def)
qed

lemma title_at_iff:
  "(\<exists>g1 g2. classify (ls ! i) (drop (Suc i) ls) = Title g1 g2) \<longleftrightarrow> pair_at ls i"
  unfolding classify_Title_iff next_has_dollar_drop pair_at_def by blast

lemma loop_from:
  "k \<le> length ls \<Longrightarrow>
     loop (drop k ls) st
       = foldl (\<lambda>st i. loop_body (ls ! i) (drop (Suc i) ls) st) st [k..<length ls]"
proof (induction "length ls - k" arbitrary: k st)
  case 0
  then show ?case by simp
next
  case (Suc m)
  then have k: "k < length ls" by simp
  then have d: "drop k ls = ls ! k # drop (Suc k) ls" by (simp add: Cons_nth_drop_Suc)
  have u: "[k..<length ls] = k # [Suc k..<length ls]" using k by (simp add: upt_conv_Cons)
  have "m = length ls - Suc k" using Suc.hyps(2) by simp
  from Suc.hyps(1) [OF this] k show ?case by (simp add: d u)
qed

text \<open>
  C2, amended. Iteration \<open>i\<close> of the loop works on line \<open>i\<close> and the lines after it, and
  it classifies the trimmed line as a title exactly when the line matches the title
  pattern and the line right after it, at index \<open>i + 1\<close>, exists and contains a dollar
  sign. That line is taken as it is: a blank line there is not passed over.
\<close>

theorem title_line_iff:
  "loop ls st = foldl (\<lambda>st i. loop_body (ls ! i) (drop (Suc i) ls) st) st [0..<length ls]
   \<and> ((\<exists>g1 g2. classify (ls ! i) (drop (Suc i) ls) = Title g1 g2) \<longleftrightarrow>
        matches_pattern (trim (ls ! i)) \<and> Suc i < length ls \<and> CHR ''$'' \<in> set (ls ! Suc i))"
  using loop_from [of 0 ls st] title_at_iff [of ls i] by (auto simp: pair_at_def)

lemma matches_door_bin: "matches_pattern (trim ''Door Bin (PS123)'')"
proof -
  have "partMatch (trim ''Door Bin (PS123)'') \<noteq> None" by code_simp
  then show ?thesis by (simp only: partMatch_iff)
qed

theorem title_line_iff_witness:
  "classify ''Door Bin (PS123)'' [''$45.00''] = Title ''Door Bin'' ''PS123''
   \<and> matches_pattern (trim ([''Door Bin (PS123)'', ''$45.00''] ! 0))
   \<and> Suc 0 < length [''Door Bin (PS123)'', ''$45.00'']
   \<and> CHR ''$'' \<in> set ([''Door Bin (PS123)'', ''$45.00''] ! Suc 0)"
proof -
  have c: "classify ''Door Bin (PS123)'' [''$45.00''] = Title ''Door Bin'' ''PS123''"
    by code_simp
  then have "\<exists>g1 g2. classify ([''Door Bin (PS123)'', ''$45.00''] ! 0)
      (drop (Suc 0) [''Door Bin (PS123)'', ''$45.00'']) = Title g1 g2" by simp
  with title_line_iff [of "[''Door Bin (PS123)'', ''$45.00'']" scan0 0] c
  show ?thesis by blast
qed

text \<open>
  C2, as stated, fails: in a message of three lines, a title, a blank line and a price
  line, the title matches the pattern and the first line after it that is not blank
  contains a dollar sign, yet the scanner classifies it as an ordinary line and finds
  no part.
\<close>

theorem blank_line_breaks_title:
  "lines_of ''Door Bin (PS123)\<newline>\<newline>$45.00'' = [''Door Bin (PS123)'', [], ''$45.00'']
   \<and> spec_title ''Door Bin (PS123)'' [[], ''$45.00'']
   \<and> classify ''Door Bin (PS123)'' [[], ''$45.00''] = Other ''Door Bin (PS123)''
   \<and> parts (parse ''Door Bin (PS123)\<newline>\<newline>$45.00'') = []"
proof -
  have a: "lines_of ''Door Bin (PS123)\<newline>\<newline>$45.00'' = [''Door Bin (PS123)'', [], ''$45.00'']"
    by code_simp
  have b: "spec_dollar_follows [[], ''$45.00'']" by code_simp
  have c: "classify ''Door Bin (PS123)'' [[], ''$45.00''] = Other ''Door Bin (PS123)''"
    by code_simp
  have d: "parts (parse ''Door Bin (PS123)\<newline>\<newline>$45.00'') = []" by code_simp
  show ?thesis using a b c d matches_door_bin by (simp add: spec_title_def)
qed

section \<open>Parts and titles\<close>

lemma parts_flush: "parts (flush st) = entities st"
  by (simp add: flush_def entities_def split: option.splits)

lemma entities_body:
  "map (\<lambda>p. (name p, partNumber p)) (entities (loop_body raw rest st))
     = map (\<lambda>p. (name p, partNumber p)) (entities st)
       @ (case classify raw rest of Title g1 g2 \<Rightarrow> [(trim g1, trim g2)] | _ \<Rightarrow> [])"
  by (cases "classify raw rest")
     (auto simp: loop_body_def entities_def open_part_def other_line_def split: option.splits)

lemma entities_loop:
  "map (\<lambda>p. (name p, partNumber p)) (entities (loop ls st))
     = map (\<lambda>p. (name p, partNumber p)) (entities st) @ titles ls"
proof (induction ls arbitrary: st)
  case Nil
  show ?case by simp
next
  case (Cons raw rest)
  show ?case
    by (cases "classify raw rest") (simp_all add: Cons.IH entities_body)
qed

lemma titles_from:
  "k \<le> length ls \<Longrightarrow>
     map Some (titles (drop k ls))
       = map (\<lambda>i. captured (ls ! i)) (filter (pair_at ls) [k..<length ls])"
proof (induction "length ls - k" arbitrary: k)
  case 0
  then show ?case by simp
next
  case (Suc m)
  then have k: "k < length ls" by simp
  then have d: "drop k ls = ls ! k # drop (Suc k) ls" by (simp add: Cons_nth_drop_Suc)
  have u: "[k..<length ls] = k # [Suc k..<length ls]" using k by (simp add: upt_conv_Cons)
  have "m = length ls - Suc k" using Suc.hyps(2) by simp
  from Suc.hyps(1) [OF this] k
  have ih: "map Some (titles (drop (Suc k) ls))
       = map (\<lambda>i. captured (ls ! i)) (filter (pair_at ls) [Suc k..<length ls])" by simp
  show ?case
  proof (cases "pair_at ls k")
    case True
    then obtain g1 g2 where t: "classify (ls ! k) (drop (Suc k) ls) = Title g1 g2"
      using title_at_iff [of ls k] by blast
    with True show ?thesis
      by (simp add: d u ih classify_Title_captured [OF t])
  next
    case False
    then have "\<nexists>g1 g2. classify (ls ! k) (drop (Suc k) ls) = Title g1 g2"
      using title_at_iff [of ls k] by blast
    with False show ?thesis
      by (cases "classify (ls ! k) (drop (Suc k) ls)") (simp_all add: d u ih)
  qed
qed

lemma count_pairs: "length (filter (pair_at ls) [0..<length ls]) = card {i. pair_at ls i}"
proof -
  have d: "distinct (filter (pair_at ls) [0..<length ls])" by simp
  have s: "set (filter (pair_at ls) [0..<length ls]) = {i. pair_at ls i}"
    by (auto simp: pair_at_def)
  have "card (set (filter (pair_at ls) [0..<length ls]))
          = length (filter (pair_at ls) [0..<length ls])"
    by (rule distinct_card [OF d])
  then show ?thesis unfolding s by simp
qed

lemma shelf_title: "matches_pattern (trim ''Shelf (PS9)'')"
proof -
  have "partMatch (trim ''Shelf (PS9)'') \<noteq> None" by code_simp
  then show ?thesis by (simp only: partMatch_iff)
qed

lemma blank_no_title: "\<not> matches_pattern (trim [])"
proof -
  have "partMatch (trim []) = None" by code_simp
  then show ?thesis using partMatch_iff [of "trim []"] by simp
qed

lemma price_no_title: "\<not> matches_pattern (trim ''$3.00'')"
proof -
  have "partMatch (trim ''$3.00'') = None" by code_simp
  then show ?thesis using partMatch_iff [of "trim ''$3.00''"] by simp
qed

text \<open>
  C4, as stated, fails when a title+dollar-line pair is what the specification calls
  one, a title line and the next line that is not blank: a text of a title, a blank line
  and a price line contains exactly one such pair, at line 0, and the parser returns no
  part.
\<close>

theorem blank_line_pair_not_parsed:
  "lines_of ''Shelf (PS9)\<newline>\<newline>$3.00'' = [''Shelf (PS9)'', [], ''$3.00'']
   \<and> filter (spec_pair_at [''Shelf (PS9)'', [], ''$3.00''])
         [0..<length [''Shelf (PS9)'', [], ''$3.00'']] = [0]
   \<and> parts (parse ''Shelf (PS9)\<newline>\<newline>$3.00'') = []"
proof -
  have a: "lines_of ''Shelf (PS9)\<newline>\<newline>$3.00'' = [''Shelf (PS9)'', [], ''$3.00'']"
    by code_simp
  have d: "spec_dollar_follows [[], ''$3.00'']" by code_simp
  have p0: "spec_pair_at [''Shelf (PS9)'', [], ''$3.00''] 0"
    using shelf_title d by (simp add: spec_pair_at_def spec_title_def)
  have p1: "\<not> spec_pair_at [''Shelf (PS9)'', [], ''$3.00''] (Suc 0)"
    using blank_no_title by (simp add: spec_pair_at_def spec_title_def)
  have p2: "\<not> spec_pair_at [''Shelf (PS9)'', [], ''$3.00''] (Suc (Suc 0))"
    using price_no_title by (simp add: spec_pair_at_def spec_title_def)
  have u: "[0..<length [''Shelf (PS9)'', [], ''$3.00'']] = [0, Suc 0, Suc (Suc 0)]"
    by (simp add: upt_rec)
  have f: "filter (spec_pair_at [''Shelf (PS9)'', [], ''$3.00''])
         [0..<length [''Shelf (PS9)'', [], ''$3.00'']] = [0]"
    unfolding u using p0 p1 p2 by simp
  have c: "parts (parse ''Shelf (PS9)\<newline>\<newline>$3.00'') = []" by code_simp
  show ?thesis by (intro conjI a f c)
qed

text \<open>
  C4, amended. A title+dollar-line pair is a line that matches the title pattern
  together with the line right after it, taken as it is, when that line contains a
  dollar sign. The parts the parser returns are, in order, the captured name and
  identifier (trimmed) of the title lines of these pairs, one part for each: with K such
  pairs in the text there are exactly K parts.
\<close>

theorem parts_are_titles:
  "map (\<lambda>p. Some (name p, partNumber p)) (parts (parse txt))
     = map (\<lambda>i. captured (lines_of txt ! i))
         (filter (pair_at (lines_of txt)) [0..<length (lines_of txt)])
   \<and> length (parts (parse txt)) = card {i. pair_at (lines_of txt) i}"
proof -
  let ?ls = "lines_of txt"
  have "map (\<lambda>p. (name p, partNumber p)) (parts (parse txt)) = titles ?ls"
    using entities_loop [of ?ls scan0]
    by (simp add: parse_def parts_flush) (simp add: entities_def scan0_def)
  then have "map Some (map (\<lambda>p. (name p, partNumber p)) (parts (parse txt)))
      = map (\<lambda>i. captured (?ls ! i)) (filter (pair_at ?ls) [0..<length ?ls])"
    using titles_from [of 0 ?ls] by simp
  then have a: "map (\<lambda>p. Some (name p, partNumber p)) (parts (parse txt))
      = map (\<lambda>i. captured (?ls ! i)) (filter (pair_at ?ls) [0..<length ?ls])"
    by (simp add: comp_def)
  from arg_cong [OF a, of length] have "length (parts (parse txt))
      = length (filter (pair_at ?ls) [0..<length ?ls])" by simp
  with a show ?thesis by (simp add: count_pairs)
qed

theorem parts_are_titles_witness:
  "card {i. pair_at (lines_of ''Two parts:\<newline>Door Bin (PS123)\<newline>$45.00 | Whirlpool\<newline>\<newline>Shelf  (W10 A)\<newline>  $3 each'') i} = 2
   \<and> map (\<lambda>p. (name p, partNumber p)) (parts (parse ''Two parts:\<newline>Door Bin (PS123)\<newline>$45.00 | Whirlpool\<newline>\<newline>Shelf  (W10 A)\<newline>  $3 each''))
       = [(''Door Bin'', ''PS123''), (''Shelf'', ''W10 A'')]"
proof -
  have "map (\<lambda>p. (name p, partNumber p)) (parts (parse ''Two parts:\<newline>Door Bin (PS123)\<newline>$45.00 | Whirlpool\<newline>\<newline>Shelf  (W10 A)\<newline>  $3 each''))
       = [(''Door Bin'', ''PS123''), (''Shelf'', ''W10 A'')]"
    by code_simp
  moreover from this have "length (parts (parse ''Two parts:\<newline>Door Bin (PS123)\<newline>$45.00 | Whirlpool\<newline>\<newline>Shelf  (W10 A)\<newline>  $3 each'')) = 2"
    using map_eq_imp_length_eq by fastforce
  ultimately show ?thesis
    using parts_are_titles [of "''Two parts:\<newline>Door Bin (PS123)\<newline>$45.00 | Whirlpool\<newline>\<newline>Shelf  (W10 A)\<newline>  $3 each''"]
    by simp
qed

section \<open>Detail lines\<close>

lemma details_body:
  assumes "\<forall>p\<in>set (entities st). \<forall>d\<in>set (details p). Q d"
    and "keeps (trim raw) \<longrightarrow> Q (trim raw)"
  shows "\<forall>p\<in>set (entities (loop_body raw rest st)). \<forall>d\<in>set (details p). Q d"
proof (cases "classify raw rest")
  case Blank
  with assms(1) show ?thesis by (simp add: loop_body_def)
next
  case (Title g1 g2)
  with assms(1) show ?thesis
    by (auto simp: loop_body_def open_part_def entities_def split: option.splits)
next
  case (Other line)
  then have "line = trim raw"
    by (auto simp: classify_def Let_def split: if_splits option.splits)
  with Other assms show ?thesis
    by (auto simp: loop_body_def other_line_def entities_def split: option.splits)
qed

lemma details_loop:
  assumes "\<forall>p\<in>set (entities st). \<forall>d\<in>set (details p). Q d"
    and "\<forall>raw\<in>set ls. keeps (trim raw) \<longrightarrow> Q (trim raw)"
  shows "\<forall>p\<in>set (entities (loop ls st)). \<forall>d\<in>set (details p). Q d"
  using assms
proof (induction ls arbitrary: st)
  case Nil
  then show ?case by simp
next
  case (Cons raw rest)
  have "\<forall>p\<in>set (entities (loop_body raw rest st)). \<forall>d\<in>set (details p). Q d"
    using details_body [of st Q raw rest] Cons.prems by simp
  with Cons.IH [of "loop_body raw rest st"] Cons.prems(2) show ?case by simp
qed

lemma details_parse:
  assumes "p \<in> set (parts (parse txt))" and "d \<in> set (details p)"
  shows "keeps d \<and> d \<in> trim ` set (lines_of txt)"
proof -
  have "\<forall>p\<in>set (entities (loop (lines_of txt) scan0)). \<forall>d\<in>set (details p).
          keeps d \<and> d \<in> trim ` set (lines_of txt)"
    by (rule details_loop) (simp_all add: entities_def scan0_def)
  with assms show ?thesis by (simp add: parse_def parts_flush)
qed

lemma not_available_dropped: "\<not> keeps ''Installation Video: [Not Available]''"
  by code_simp

text \<open>
  C9. Every detail line of every part the parser returns contains a dollar sign,
  \<open>Product Page:\<close>, \<open>Installation:\<close> or \<open>https://\<close>. The line
  \<open>Installation Video: [Not Available]\<close> contains none of them and is never a detail
  line; so when the only lines of a message that mention \<open>Installation Video:\<close> are of
  that form, no part has a video URL and has-video is false for want of such a detail
  line.
\<close>

theorem detail_lines_kept:
  assumes "p \<in> set (parts (parse txt))"
  shows "(\<forall>d\<in>set (details p).
            includes_str d ''$'' \<or> includes_str d ''Product Page:''
            \<or> includes_str d ''Installation:'' \<or> includes_str d ''https://'')
       \<and> ''Installation Video: [Not Available]'' \<notin> set (details p)
       \<and> ((\<forall>l\<in>set (lines_of txt). includes_str (trim l) ''Installation Video:''
              \<longrightarrow> trim l = ''Installation Video: [Not Available]'')
            \<longrightarrow> find (\<lambda>d. includes_str d ''Installation Video:'') (details p) = None
                \<and> videoUrl p = None \<and> \<not> hasVideo p)"
proof -
  have a: "\<forall>d\<in>set (details p). keeps d"
    using details_parse [OF assms] by blast
  have b: "''Installation Video: [Not Available]'' \<notin> set (details p)"
    using a not_available_dropped by blast
  have c: "find (\<lambda>d. includes_str d ''Installation Video:'') (details p) = None"
    if h: "\<forall>l\<in>set (lines_of txt). includes_str (trim l) ''Installation Video:''
              \<longrightarrow> trim l = ''Installation Video: [Not Available]''"
  proof -
    have "\<not> includes_str d ''Installation Video:''" if d: "d \<in> set (details p)" for d
    proof
      assume i: "includes_str d ''Installation Video:''"
      from details_parse [OF assms d] obtain l where "l \<in> set (lines_of txt)" "d = trim l"
        by blast
      with h i have "d = ''Installation Video: [Not Available]''" by blast
      with d b show False by simp
    qed
    then show ?thesis by (simp add: find_None_iff)
  qed
  from a b c show ?thesis
    by (auto simp: keeps_def videoUrl_def hasVideo_def)
qed

theorem detail_lines_kept_witness:
  "parts (parse ''Door Bin (PS123)\<newline>$45.00 | Whirlpool | In Stock\<newline>Product Page: https://x\<newline>Installation Video: [Not Available]'')
     = [\<lparr>name = ''Door Bin'', partNumber = ''PS123'',
         details = [''$45.00 | Whirlpool | In Stock'', ''Product Page: https://x'']\<rparr>]
   \<and> filter (\<lambda>l. includes_str (trim l) ''Installation Video:'')
         (lines_of ''Door Bin (PS123)\<newline>$45.00 | Whirlpool | In Stock\<newline>Product Page: https://x\<newline>Installation Video: [Not Available]'')
       = [''Installation Video: [Not Available]'']
   \<and> videoUrl \<lparr>name = ''Door Bin'', partNumber = ''PS123'',
         details = [''$45.00 | Whirlpool | In Stock'', ''Product Page: https://x'']\<rparr> = None
   \<and> \<not> hasVideo \<lparr>name = ''Door Bin'', partNumber = ''PS123'',
         details = [''$45.00 | Whirlpool | In Stock'', ''Product Page: https://x'']\<rparr>"
proof -
  let ?txt = "''Door Bin (PS123)\<newline>$45.00 | Whirlpool | In Stock\<newline>Product Page: https://x\<newline>Installation Video: [Not Available]''"
  let ?p = "\<lparr>name = ''Door Bin'', partNumber = ''PS123'',
         details = [''$45.00 | Whirlpool | In Stock'', ''Product Page: https://x'']\<rparr>"
  have a: "parts (parse ?txt) = [?p]" by code_simp
  have b: "\<forall>l\<in>set (lines_of ?txt). includes_str (trim l) ''Installation Video:''
           \<longrightarrow> trim l = ''Installation Video: [Not Available]''" by code_simp
  have c: "?p \<in> set (parts (parse ?txt))" using a by simp
  have d: "filter (\<lambda>l. includes_str (trim l) ''Installation Video:'') (lines_of ?txt)
             = [''Installation Video: [Not Available]'']" by code_simp
  have "videoUrl ?p = None \<and> \<not> hasVideo ?p" using detail_lines_kept [OF c] b by blast
  with a d show ?thesis by blast
qed

section \<open>The product URL\<close>

lemma find_first:
  "\<forall>b\<in>set before. \<not> P b \<Longrightarrow> P d \<Longrightarrow> find P (before @ d # after) = Some d"
  by (induction before) auto

lemma prefix_shorter:
  assumes "prefix xs (ys @ zs)" and "length xs \<le> length ys"
  shows "prefix xs ys"
proof -
  from assms(1) consider "prefix xs ys" | us where "xs = ys @ us"
    by (auto simp: prefix_append)
  then show ?thesis
  proof cases
    case 1 then show ?thesis .
  next
    case 2
    with assms(2) have "us = []" by simp
    with 2 show ?thesis by simp
  qed
qed

lemma replace_first:
  assumes "pat \<noteq> []" and "\<not> includes_str (pre @ butlast pat) pat"
  shows "replace (pre @ pat @ post) pat rep = pre @ rep @ post"
  using assms(2)
proof (induction pre)
  case Nil
  from assms(1) obtain c cs where p: "pat = c # cs" by (cases pat) auto
  then have "replace (c # cs @ post) (c # cs) rep = rep @ drop (length (c # cs)) (c # cs @ post)"
    by simp
  then show ?case using p by simp
next
  case (Cons c pre)
  from Cons.prems have np: "\<not> prefix pat (c # pre @ butlast pat)"
    and ni: "\<not> includes_str (pre @ butlast pat) pat" by auto
  have "\<not> prefix pat (c # pre @ pat @ post)"
  proof
    assume "prefix pat (c # pre @ pat @ post)"
    moreover have "c # pre @ pat @ post = (c # pre @ butlast pat) @ (last pat # post)"
      using assms(1) by simp
    moreover have "length pat \<le> length (c # pre @ butlast pat)" by simp
    ultimately have "prefix pat (c # pre @ butlast pat)"
      using prefix_shorter [of pat "c # pre @ butlast pat" "last pat # post"] by simp
    with np show False ..
  qed
  then show ?case using Cons.IH [OF ni] by simp
qed

lemma find_none: "\<forall>d\<in>set ds. \<not> P d \<Longrightarrow> find P ds = None"
  by (simp add: find_None_iff)

text \<open>
  C6, amended. The product URL is taken from the first detail line that contains
  \<open>Product Page:\<close>, wherever in the line; the first occurrence of that text is cut
  out of the line and what is left, the part before it included, is trimmed. Without
  such a line there is no product URL. When the line begins with \<open>Product Page:\<close>
  this is the rest of the line, trimmed.
\<close>

theorem product_url_first_occurrence:
  "(details p = before @ d # after \<and> (\<forall>b\<in>set before. \<not> includes_str b ''Product Page:'')
      \<and> d = pre @ ''Product Page:'' @ post
      \<and> \<not> includes_str (pre @ butlast ''Product Page:'') ''Product Page:''
     \<longrightarrow> productUrl p = Some (trim (pre @ post)))
   \<and> ((\<forall>d\<in>set (details p). \<not> includes_str d ''Product Page:'') \<longrightarrow> productUrl p = None)"
proof -
  have a: "productUrl p = Some (trim (pre @ post))"
    if h: "details p = before @ d # after" "\<forall>b\<in>set before. \<not> includes_str b ''Product Page:''"
      "d = pre @ ''Product Page:'' @ post"
      "\<not> includes_str (pre @ butlast ''Product Page:'') ''Product Page:''"
  proof -
    have "includes_str d ''Product Page:''" using h(3) includes_iff by blast
    then have f: "find (\<lambda>d. includes_str d ''Product Page:'') (details p) = Some d"
      using h(1,2) find_first [of before "\<lambda>d. includes_str d ''Product Page:''" d after]
      by simp
    have "replace (pre @ ''Product Page:'' @ post) ''Product Page:'' [] = pre @ [] @ post"
      by (rule replace_first [OF _ h(4)]) simp
    then have "replace d ''Product Page:'' [] = pre @ post" using h(3) by simp
    with f show ?thesis by (simp add: productUrl_def)
  qed
  have b: "productUrl p = None" if "\<forall>d\<in>set (details p). \<not> includes_str d ''Product Page:''"
    using find_none [OF that] by (simp add: productUrl_def)
  from a b show ?thesis by blast
qed

theorem product_url_first_occurrence_witness:
  "details \<lparr>name = ''Door Bin'', partNumber = ''PS123'',
            details = [''$45.00'', ''Product Page: https://x'', ''Product Page: https://y'']\<rparr>
     = [''$45.00''] @ ''Product Page: https://x'' # [''Product Page: https://y'']
   \<and> \<not> includes_str ''$45.00'' ''Product Page:''
   \<and> ''Product Page: https://x'' = [] @ ''Product Page:'' @ '' https://x''
   \<and> \<not> includes_str ([] @ butlast ''Product Page:'') ''Product Page:''
   \<and> productUrl \<lparr>name = ''Door Bin'', partNumber = ''PS123'',
            details = [''$45.00'', ''Product Page: https://x'', ''Product Page: https://y'']\<rparr>
       = Some ''https://x''
   \<and> \<not> includes_str ''$3'' ''Product Page:''
   \<and> productUrl \<lparr>name = ''Shelf'', partNumber = ''PS9'', details = [''$3'']\<rparr> = None"
proof -
  let ?p = "\<lparr>name = ''Door Bin'', partNumber = ''PS123'',
            details = [''$45.00'', ''Product Page: https://x'', ''Product Page: https://y'']\<rparr>"
  let ?q = "\<lparr>name = ''Shelf'', partNumber = ''PS9'', details = [''$3'']\<rparr>"
  have a: "details ?p = [''$45.00''] @ ''Product Page: https://x'' # [''Product Page: https://y'']"
    by simp
  have b: "\<forall>b\<in>set [''$45.00'']. \<not> includes_str b ''Product Page:''" by code_simp
  have c: "''Product Page: https://x'' = [] @ ''Product Page:'' @ '' https://x''" by simp
  have d: "\<not> includes_str ([] @ butlast ''Product Page:'') ''Product Page:''" by code_simp
  have e: "trim ([] @ '' https://x'') = ''https://x''" by code_simp
  have f: "\<forall>d\<in>set (details ?q). \<not> includes_str d ''Product Page:''" by code_simp
  note t = product_url_first_occurrence [of ?p "[''$45.00'']" "''Product Page: https://x''"
        "[''Product Page: https://y'']" "[]" "'' https://x''"]
  have "productUrl ?p = Some (trim ([] @ '' https://x''))"
    by (rule mp [OF conjunct1 [OF t]]) (intro conjI a b c d)
  then have g: "productUrl ?p = Some ''https://x''" by (simp only: e)
  note u = product_url_first_occurrence [of ?q "[]" "[]" "[]" "[]" "[]"]
  have h: "productUrl ?q = None"
    by (rule mp [OF conjunct2 [OF u]]) (rule f)
  have b': "\<not> includes_str ''$45.00'' ''Product Page:''" by code_simp
  have f': "\<not> includes_str ''$3'' ''Product Page:''" by code_simp
  show ?thesis by (intro conjI a b' c d g f' h)
qed

text \<open>
  C6, as stated, fails: a part listed with a line that mentions \<open>Product Page:\<close>
  after other words, followed by a line that begins with it. The specification takes
  the URL of the second line; PartCard takes the first line and keeps its leading words.
\<close>

theorem product_url_interior:
  "parts (parse ''Door Bin (PS123)\<newline>$45.00\<newline>See Product Page: https://a\<newline>Product Page: https://b'')
     = [\<lparr>name = ''Door Bin'', partNumber = ''PS123'',
         details = [''$45.00'', ''See Product Page: https://a'', ''Product Page: https://b'']\<rparr>]
   \<and> productUrl \<lparr>name = ''Door Bin'', partNumber = ''PS123'',
         details = [''$45.00'', ''See Product Page: https://a'', ''Product Page: https://b'']\<rparr>
       = Some ''See  https://a''
   \<and> spec_productUrl \<lparr>name = ''Door Bin'', partNumber = ''PS123'',
         details = [''$45.00'', ''See Product Page: https://a'', ''Product Page: https://b'']\<rparr>
       = Some ''https://b''"
  by code_simp

end
